theory Spec2Isabelle
  imports Complex_Main
begin

section \<open>Data model\<close>

text \<open>
  The dashboard of \<^verbatim>\<open>src/App.js\<close> holds a list of user records fetched once, and derives
  the displayed cards from the search text, the company filter, the sort order and the
  current page. A record of the fetched JSON array carries the fields the component reads.
  A string is a list of code units below 256: the ASCII characters and the Latin-1
  supplement, on which the case mapping is a map of single code units.
\<close>

record company_info =
  company_name :: string

record user =
  user_id :: int
  name :: string
  email :: string
  phone :: string
  company :: company_info

section \<open>String operations of the runtime\<close>

text \<open>
  \<^verbatim>\<open>String.prototype.toLowerCase\<close> on code units below 256: the capital letters A to Z
  (65 to 90) and the capital letters of the Latin-1 supplement (192 to 222, without the
  multiplication sign 215) move 32 places up to their small letters; every other code unit
  stays.
\<close>

definition toLowerCase_char :: "char \<Rightarrow> char" where
  "toLowerCase_char c =
     (let n = (of_char c :: nat)
      in if (65 \<le> n \<and> n \<le> 90) \<or> (192 \<le> n \<and> n \<le> 222 \<and> n \<noteq> 215)
         then char_of (n + 32) else c)"

definition toLowerCase :: "string \<Rightarrow> string" where
  "toLowerCase s = map toLowerCase_char s"

text \<open>\<^verbatim>\<open>s.startsWith(t)\<close> and \<^verbatim>\<open>s.includes(t)\<close>: \<open>t\<close> occurs in \<open>s\<close> at some position.\<close>

fun startsWith :: "string \<Rightarrow> string \<Rightarrow> bool" where
  "startsWith s [] = True"
| "startsWith [] (d # t) = False"
| "startsWith (c # s) (d # t) = (c = d \<and> startsWith s t)"

fun str_includes :: "string \<Rightarrow> string \<Rightarrow> bool" where
  "str_includes [] t = startsWith [] t"
| "str_includes (c # s) t = (startsWith (c # s) t \<or> str_includes s t)"

section \<open>Filtering (lines 94 to 102)\<close>

definition isNameMatch :: "string \<Rightarrow> user \<Rightarrow> bool" where
  "isNameMatch searchText u = str_includes (toLowerCase (name u)) (toLowerCase searchText)"

text \<open>A string is truthy when it is not empty, so the empty filter keeps every company.\<close>

definition isCompanyMatch :: "string \<Rightarrow> user \<Rightarrow> bool" where
  "isCompanyMatch filterText u =
     (if filterText \<noteq> []
      then toLowerCase (company_name (company u)) = toLowerCase filterText
      else True)"

definition filteredUsers :: "user list \<Rightarrow> string \<Rightarrow> string \<Rightarrow> user list" where
  "filteredUsers us searchText filterText =
     filter (\<lambda>u. isNameMatch searchText u \<and> isCompanyMatch filterText u) us"






text \<open>A record with the given id, name and company; the other fields are not read by the filter.\<close>

definition mk_user :: "int \<Rightarrow> string \<Rightarrow> string \<Rightarrow> user" where
  "mk_user i n c =
     \<lparr>user_id = i, name = n, email = [], phone = [], company = \<lparr>company_name = c\<rparr>\<rparr>"

section \<open>Sorting (lines 105 to 115)\<close>

text \<open>
  \<^verbatim>\<open>Array.prototype.sort\<close> with a comparator is a stable sort: an element moves before
  another only when the comparator says so, and elements that compare as equal keep their
  order. The model is the stable insertion sort, which is the only stable result for a
  consistent comparator.
\<close>

fun insert_by :: "('a \<Rightarrow> 'a \<Rightarrow> int) \<Rightarrow> 'a \<Rightarrow> 'a list \<Rightarrow> 'a list" where
  "insert_by c x [] = [x]"
| "insert_by c x (y # ys) = (if c x y \<le> 0 then x # y # ys else y # insert_by c x ys)"

definition array_sort :: "('a \<Rightarrow> 'a \<Rightarrow> int) \<Rightarrow> 'a list \<Rightarrow> 'a list" where
  "array_sort c xs = foldr (insert_by c) xs []"

text \<open>
  The comparator of the component. \<^verbatim>\<open>String.prototype.localeCompare\<close> belongs to the
  runtime and depends on the host locale, so it is a parameter of the model.
\<close>

definition compareUsers :: "(string \<Rightarrow> string \<Rightarrow> int) \<Rightarrow> string \<Rightarrow> user \<Rightarrow> user \<Rightarrow> int" where
  "compareUsers localeCompare order a b =
     (let nameA = toLowerCase (name a); nameB = toLowerCase (name b)
      in if order = ''asc'' then localeCompare nameA nameB else localeCompare nameB nameA)"

definition sortedUsers :: "(string \<Rightarrow> string \<Rightarrow> int) \<Rightarrow> string \<Rightarrow> user list \<Rightarrow> user list" where
  "sortedUsers localeCompare order filtered =
     array_sort (compareUsers localeCompare order) filtered"

text \<open>
  What the comparator has to satisfy for the sort to be defined by the language: comparing
  is reflexive, antisymmetric in sign and transitive. A collation may compare different
  keys as equal.
\<close>

definition consistent_comparator :: "(string \<Rightarrow> string \<Rightarrow> int) \<Rightarrow> bool" where
  "consistent_comparator cmp \<longleftrightarrow>
     (\<forall>a. cmp a a = 0) \<and>
     (\<forall>a b. (cmp a b < 0) = (0 < cmp b a)) \<and>
     (\<forall>a b c. cmp a b \<le> 0 \<longrightarrow> cmp b c \<le> 0 \<longrightarrow> cmp a c \<le> 0)"

text \<open>
  No two records of a sequence tie: the comparator of the component gives a result other
  than 0 for every two of them.
\<close>

fun no_ties :: "(string \<Rightarrow> string \<Rightarrow> int) \<Rightarrow> user list \<Rightarrow> bool" where
  "no_ties localeCompare [] = True"
| "no_ties localeCompare (u # us) =
     (list_all (\<lambda>v. compareUsers localeCompare ''asc'' u v \<noteq> 0) us \<and>
      no_ties localeCompare us)"

text \<open>
  A concrete collation for evaluating examples: comparison by code units, which agrees with
  the root collation on keys made of the lower-case letters a to z only.
\<close>

fun codeUnitCompare :: "string \<Rightarrow> string \<Rightarrow> int" where
  "codeUnitCompare [] [] = 0"
| "codeUnitCompare [] (d # t) = - 1"
| "codeUnitCompare (c # s) [] = 1"
| "codeUnitCompare (c # s) (d # t) =
     (if c = d then codeUnitCompare s t
      else if (of_char c :: nat) < of_char d then - 1 else 1)"

text \<open>
  A collation that, like the one of the runtime, passes over control characters, and so
  compares some different keys as equal.
\<close>

definition collate_ignoring_controls :: "string \<Rightarrow> string \<Rightarrow> int" where
  "collate_ignoring_controls a b =
     codeUnitCompare (filter (\<lambda>c. 32 \<le> (of_char c :: nat)) a)
       (filter (\<lambda>c. 32 \<le> (of_char c :: nat)) b)"

section \<open>Pagination (lines 17, 28 and 117 to 119)\<close>

definition usersPerPage :: int where
  "usersPerPage = 5"

text \<open>\<^verbatim>\<open>Math.ceil(a / b)\<close> on integers, for a positive divisor.\<close>

definition math_ceil_div :: "int \<Rightarrow> int \<Rightarrow> int" where
  "math_ceil_div a b = - ((- a) div b)"

text \<open>
  \<^verbatim>\<open>Array.prototype.slice(start, end)\<close>: a negative index counts from the end of the
  array, both indices are clamped to the array, and an empty range gives the empty array.
\<close>

definition js_slice :: "'a list \<Rightarrow> int \<Rightarrow> int \<Rightarrow> 'a list" where
  "js_slice xs start fin =
     (let len = int (length xs);
          k = (if start < 0 then max (len + start) 0 else min start len);
          final = (if fin < 0 then max (len + fin) 0 else min fin len)
      in take (nat (final - k)) (drop (nat k) xs))"

definition indexOfLastUser :: "int \<Rightarrow> int" where
  "indexOfLastUser page = page * usersPerPage"

definition indexOfFirstUser :: "int \<Rightarrow> int" where
  "indexOfFirstUser page = indexOfLastUser page - usersPerPage"

definition currentUsers :: "user list \<Rightarrow> int \<Rightarrow> user list" where
  "currentUsers sortedArr page =
     js_slice sortedArr (indexOfFirstUser page) (indexOfLastUser page)"

text \<open>
  The slice in the words of the specification: the elements at the positions \<open>i\<close> of the
  sequence with \<open>lo \<le> i < hi\<close>.
\<close>

definition index_range :: "'a list \<Rightarrow> int \<Rightarrow> int \<Rightarrow> 'a list" where
  "index_range xs lo hi =
     map (\<lambda>i. xs ! nat i) (filter (\<lambda>i. 0 \<le> i \<and> i < int (length xs)) [lo .. hi - 1])"

section \<open>Component state (lines 5 to 12)\<close>

text \<open>
  The state cells of the component. \<open>error\<close> is \<^verbatim>\<open>null\<close> or a message. \<open>timer\<close> is the
  pending timeout of the search effect: the time it is due and the search text its callback
  captured. \<open>listenerPage\<close> and \<open>listenerTotal\<close> are the values of \<open>currentPage\<close> and
  \<open>totalPages\<close> that the subscribed scroll listener captured in its closure. The theme
  preference does not take part in the pipeline and is left out.
\<close>

record app_state =
  users :: "user list"
  loading :: bool
  error :: "string option"
  currentPage :: int
  search :: string
  companyFilter :: string
  sortOrder :: string
  totalPages :: int
  timer :: "(nat \<times> string) option"
  listenerPage :: int
  listenerTotal :: int

definition initial_state :: app_state where
  "initial_state =
     \<lparr>users = [], loading = True, error = None, currentPage = 1, search = [],
      companyFilter = [], sortOrder = ''asc'', totalPages = 0, timer = None,
      listenerPage = 1, listenerTotal = 0\<rparr>"

section \<open>Search input and its timer (lines 79 to 91)\<close>

definition debounceSearch :: "string \<Rightarrow> app_state \<Rightarrow> app_state" where
  "debounceSearch v s = s\<lparr>search := v\<rparr>"

text \<open>
  The effect on \<open>search\<close>: its cleanup clears the previous timeout, and a timeout is set
  that calls \<open>debounceSearch\<close> with the captured text after 300 milliseconds.
\<close>

definition searchEffect :: "nat \<Rightarrow> app_state \<Rightarrow> app_state" where
  "searchEffect now s = s\<lparr>timer := Some (now + 300, search s)\<rparr>"

text \<open>
  Setting \<open>search\<close> to a new value renders again and runs the effect; setting it to the value
  it has does neither.
\<close>

definition setSearch :: "nat \<Rightarrow> string \<Rightarrow> app_state \<Rightarrow> app_state" where
  "setSearch now v s = (if v = search s then s else searchEffect now (debounceSearch v s))"

definition timerFire :: "app_state \<Rightarrow> app_state" where
  "timerFire s =
     (case timer s of
        None \<Rightarrow> s
      | Some (due, v) \<Rightarrow> setSearch due v (s\<lparr>timer := None\<rparr>))"

section \<open>Mounting and the seed from the address (lines 57 to 63)\<close>

text \<open>A parameter seeds a cell when it is present and not empty.\<close>

definition seed :: "string option \<Rightarrow> string" where
  "seed param = (case param of None \<Rightarrow> [] | Some v \<Rightarrow> if v \<noteq> [] then v else [])"

definition mount :: "string option \<Rightarrow> string option \<Rightarrow> app_state" where
  "mount searchParam companyParam =
     searchEffect 0 (initial_state\<lparr>search := seed searchParam,
                                   companyFilter := seed companyParam\<rparr>)"

section \<open>Loading the collection (lines 19 to 37)\<close>

text \<open>
  How the single request ends: \<^verbatim>\<open>fetch\<close> rejects with a message, the response is not ok,
  \<^verbatim>\<open>response.json()\<close> rejects with a message, or the body is an array of records.
\<close>

datatype fetch_result =
  NetworkError string
| HttpNotOk
| ParseError string
| Body "user list"

fun fetchUsers :: "fetch_result \<Rightarrow> app_state \<Rightarrow> app_state" where
  "fetchUsers (NetworkError msg) s = s\<lparr>error := Some msg, loading := False\<rparr>"
| "fetchUsers HttpNotOk s = s\<lparr>error := Some ''Failed to fetch data.'', loading := False\<rparr>"
| "fetchUsers (ParseError msg) s = s\<lparr>error := Some msg, loading := False\<rparr>"
| "fetchUsers (Body data) s =
     s\<lparr>users := data,
       totalPages := math_ceil_div (int (length data)) usersPerPage,
       loading := False\<rparr>"

text \<open>The reason a failed request leaves in \<open>error\<close>.\<close>

fun failure_reason :: "fetch_result \<Rightarrow> string option" where
  "failure_reason (NetworkError msg) = Some msg"
| "failure_reason HttpNotOk = Some ''Failed to fetch data.''"
| "failure_reason (ParseError msg) = Some msg"
| "failure_reason (Body data) = None"

section \<open>Scrolling (lines 39 to 55)\<close>

record viewport =
  innerHeight :: int
  scrollTop :: int
  scrollHeight :: int

definition near_bottom :: "viewport \<Rightarrow> bool" where
  "near_bottom v \<longleftrightarrow> innerHeight v + scrollTop v \<ge> scrollHeight v - 5"

text \<open>
  The listener tests the \<open>currentPage\<close> and \<open>totalPages\<close> of its closure, the values of the
  render whose effect subscribed it, and its updater adds 1 to the latest page.
\<close>

definition handleScroll :: "viewport \<Rightarrow> app_state \<Rightarrow> app_state" where
  "handleScroll v s =
     (if near_bottom v \<and> listenerPage s < listenerTotal s
      then s\<lparr>currentPage := currentPage s + 1\<rparr>
      else s)"

text \<open>
  The effect of lines 39 to 55 runs after a render in which \<open>currentPage\<close> or \<open>totalPages\<close>
  changed: it removes the listener and subscribes one that captures the rendered values.
\<close>

definition scrollEffect :: "app_state \<Rightarrow> app_state" where
  "scrollEffect s = s\<lparr>listenerPage := currentPage s, listenerTotal := totalPages s\<rparr>"

definition listener_current :: "app_state \<Rightarrow> bool" where
  "listener_current s \<longleftrightarrow> listenerPage s = currentPage s \<and> listenerTotal s = totalPages s"

section \<open>Page buttons (lines 121 to 126)\<close>

definition changePage :: "int \<Rightarrow> app_state \<Rightarrow> app_state" where
  "changePage direction s =
     s\<lparr>currentPage := (let newPage = currentPage s + direction
                        in min (max newPage 1) (totalPages s))\<rparr>"

section \<open>Rendering (lines 128 to 243)\<close>

datatype screen =
  Spinner
| ErrorScreen string
| Dashboard "user list" int int

text \<open>\<^verbatim>\<open>if (error)\<close> holds for a message that is not empty.\<close>

definition error_shown :: "app_state \<Rightarrow> bool" where
  "error_shown s = (case error s of None \<Rightarrow> False | Some msg \<Rightarrow> msg \<noteq> [])"

definition derived_page :: "(string \<Rightarrow> string \<Rightarrow> int) \<Rightarrow> app_state \<Rightarrow> user list" where
  "derived_page localeCompare s =
     currentUsers
       (sortedUsers localeCompare (sortOrder s)
          (filteredUsers (users s) (search s) (companyFilter s)))
       (currentPage s)"

definition render :: "(string \<Rightarrow> string \<Rightarrow> int) \<Rightarrow> app_state \<Rightarrow> screen" where
  "render localeCompare s =
     (if loading s then Spinner
      else if error_shown s then ErrorScreen (the (error s))
      else Dashboard (derived_page localeCompare s) (currentPage s) (totalPages s))"

fun cards :: "screen \<Rightarrow> user list" where
  "cards Spinner = []"
| "cards (ErrorScreen msg) = []"
| "cards (Dashboard us page pages) = us"

section \<open>Events\<close>

text \<open>
  The events the component reacts to. The search box, the company select, the sort button
  and the page buttons exist only on the dashboard; a disabled button does not click. The
  request settles once, while \<open>loading\<close> holds. A search input carries the time, in
  milliseconds, at which it arrives. \<open>Resubscribe\<close> is the scroll effect running after a
  render; scroll events that arrive before it meet the listener of the render before.
\<close>

datatype event =
  FetchSettled fetch_result
| ScrollEv viewport
| ClickPrev
| ClickNext
| TypeSearch nat string
| SelectCompany string
| ClickSort
| TimerFire
| Resubscribe

definition controls_rendered :: "app_state \<Rightarrow> bool" where
  "controls_rendered s \<longleftrightarrow> \<not> loading s \<and> \<not> error_shown s"

fun dispatch :: "event \<Rightarrow> app_state \<Rightarrow> app_state" where
  "dispatch (FetchSettled r) s = (if loading s then fetchUsers r s else s)"
| "dispatch (ScrollEv v) s = handleScroll v s"
| "dispatch ClickPrev s =
     (if controls_rendered s \<and> currentPage s \<noteq> 1 then changePage (- 1) s else s)"
| "dispatch ClickNext s =
     (if controls_rendered s \<and> currentPage s \<noteq> totalPages s then changePage 1 s else s)"
| "dispatch (TypeSearch t v) s = (if controls_rendered s then setSearch t v s else s)"
| "dispatch (SelectCompany c) s = (if controls_rendered s then s\<lparr>companyFilter := c\<rparr> else s)"
| "dispatch ClickSort s =
     (if controls_rendered s
      then s\<lparr>sortOrder := (if sortOrder s = ''asc'' then ''desc'' else ''asc'')\<rparr>
      else s)"
| "dispatch TimerFire s = timerFire s"
| "dispatch Resubscribe s = scrollEffect s"

fun run :: "event list \<Rightarrow> app_state \<Rightarrow> app_state" where
  "run [] s = s"
| "run (e # es) s = run es (dispatch e s)"

text \<open>The value of \<open>search\<close> after each event of a run.\<close>

fun search_trace :: "event list \<Rightarrow> app_state \<Rightarrow> string list" where
  "search_trace [] s = []"
| "search_trace (e # es) s = search (dispatch e s) # search_trace es (dispatch e s)"

fun is_fetch :: "event \<Rightarrow> bool" where
  "is_fetch (FetchSettled r) = True"
| "is_fetch e = False"

fun is_scroll :: "event \<Rightarrow> bool" where
  "is_scroll (ScrollEv v) = True"
| "is_scroll e = False"

text \<open>Every scroll event of the run meets a listener that holds the current values.\<close>

fun scrolls_fresh :: "event list \<Rightarrow> app_state \<Rightarrow> bool" where
  "scrolls_fresh [] s = True"
| "scrolls_fresh (e # es) s =
     ((if is_scroll e then listener_current s else True) \<and> scrolls_fresh es (dispatch e s))"

section \<open>Reachable states\<close>

text \<open>
  What holds in every state the component reaches: the page count is the one computed from
  the loaded collection, the page is never negative, nothing is loaded or failed while the
  request is pending, the page is at least 1 once a collection with records is loaded, a
  failed load has no records, the pending timer holds the current search text, and the
  listener holds a page that is not negative and the page count of now or of the mount.
\<close>

definition state_inv :: "app_state \<Rightarrow> bool" where
  "state_inv s \<longleftrightarrow>
     totalPages s = math_ceil_div (int (length (users s))) usersPerPage \<and>
     0 \<le> currentPage s \<and>
     (loading s \<longrightarrow> users s = [] \<and> currentPage s = 1 \<and> error s = None) \<and>
     (users s \<noteq> [] \<longrightarrow> 1 \<le> currentPage s) \<and>
     (error s \<noteq> None \<longrightarrow> users s = []) \<and>
     (\<forall>d v. timer s = Some (d, v) \<longrightarrow> v = search s) \<and>
     0 \<le> listenerPage s \<and>
     (listenerTotal s = 0 \<or> listenerTotal s = totalPages s)"

text \<open>
  The page count in the words of the specification: the ceiling of the size of the filtered
  set over the page size.
\<close>

definition filtered_page_count :: "app_state \<Rightarrow> int" where
  "filtered_page_count s =
     math_ceil_div (int (length (filteredUsers (users s) (search s) (companyFilter s))))
       usersPerPage"

text \<open>The page is not above the page count when a collection with records is loaded.\<close>

definition page_bounded :: "app_state \<Rightarrow> bool" where
  "page_bounded s \<longleftrightarrow> (users s = [] \<or> currentPage s \<le> totalPages s)"

section \<open>Example data\<close>

definition example_collection :: "nat \<Rightarrow> user list" where
  "example_collection n = map (\<lambda>i. mk_user (int i) ''user'' ''acme'') [1..<Suc n]"

definition at_bottom :: viewport where
  "at_bottom = \<lparr>innerHeight = 600, scrollTop = 400, scrollHeight = 1000\<rparr>"

definition john_bob_rose :: "user list" where
  "john_bob_rose =
     [mk_user 1 ''John'' ''Romaguera-Crona'', mk_user 2 ''Bob'' ''Deckow-Crist'',
      mk_user 3 ''Rose'' ''Keebler LLC'']"

definition bob_and_bob :: "user list" where
  "bob_and_bob = [mk_user 1 ''Bob'' ''Deckow-Crist'', mk_user 2 ''bob'' ''Keebler LLC'']"

definition ada_bob_cy :: "user list" where
  "ada_bob_cy =
     [mk_user 1 ''Cy'' ''Keebler LLC'', mk_user 2 ''Ada'' ''Deckow-Crist'',
      mk_user 3 ''bob'' ''Keebler LLC'']"

section \<open>Properties of the string operations\<close>




section \<open>Lower-casing and case-insensitivity\<close>






section \<open>The filter predicate\<close>


text \<open>
  The case mapping at work: the name \<open>Bob\<close> is found by the search text \<open>bOB\<close>, and a name
  of the capital E with acute accent (code unit 201) by its small letter (code unit 233).
\<close>

lemma case_folding_examples:
  "map name (filteredUsers [mk_user 1 ''Bob'' ''Acme''] ''bOB'' ''ACME'') = [''Bob'']"
  "map user_id (filteredUsers [mk_user 1 [char_of (201 :: nat)] ''Acme'']
      [char_of (233 :: nat)] []) = [1]"
  "filteredUsers [mk_user 1 ''Bob'' ''Acme''] ''bobby'' [] = []"
  by code_simp+

section \<open>Page count and slices\<close>

lemma math_ceil_div_real:
  "0 < b \<Longrightarrow> math_ceil_div a b = \<lceil>real_of_int a / real_of_int b\<rceil>"
  by (simp add: math_ceil_div_def ceiling_divide_eq_div)

lemma js_slice_nonneg:
  "0 \<le> a \<Longrightarrow> a \<le> b \<Longrightarrow> js_slice xs a b = take (nat b - nat a) (drop (nat a) xs)"
  by (auto simp: js_slice_def Let_def min_def max_def nat_diff_distrib)

lemma currentUsers_take_drop:
  "1 \<le> p \<Longrightarrow> currentUsers xs p = take 5 (drop (5 * nat (p - 1)) xs)"
  unfolding currentUsers_def indexOfFirstUser_def indexOfLastUser_def usersPerPage_def
  by (subst js_slice_nonneg) (auto simp: nat_mult_distrib nat_diff_distrib algebra_simps)

lemma currentUsers_zero: "currentUsers xs 0 = []"
  by (simp add: currentUsers_def indexOfFirstUser_def indexOfLastUser_def usersPerPage_def js_slice_def Let_def)

lemma length_currentUsers: "length (currentUsers xs p) \<le> 5"
  by (auto simp: currentUsers_def indexOfFirstUser_def indexOfLastUser_def usersPerPage_def js_slice_def Let_def min_def max_def)

lemma concat_pages_nat:
  "concat (map (\<lambda>k. take 5 (drop (5 * k) xs)) [0..<m]) = take (5 * m) xs"
proof (induction m)
  case 0
  show ?case by simp
next
  case (Suc m)
  have "take (5 * Suc m) xs = take (5 * m + 5) xs" by (simp add: algebra_simps)
  also have "\<dots> = take (5 * m) xs @ take 5 (drop (5 * m) xs)" by (simp only: take_add)
  finally show ?case using Suc by simp
qed

lemma upto_as_upt: "0 \<le> n \<Longrightarrow> [1..n] = map (\<lambda>k. int k + 1) [0..<nat n]"
proof (induction "nat n" arbitrary: n)
  case 0
  then show ?case by simp
next
  case (Suc m)
  then have n: "nat n = Suc m" "1 \<le> n" by auto
  have "m = nat (n - 1)" using Suc.hyps(2) by simp
  then have IH: "[1..n - 1] = map (\<lambda>k. int k + 1) [0..<m]"
    using Suc.hyps(1)[of "n - 1"] n by simp
  have "[1..n] = [1..n - 1] @ [n]" using n by (simp add: upto_rec2)
  moreover have "int m + 1 = n" using n by linarith
  ultimately show ?case using IH n by simp
qed

lemma concat_pages:
  "concat (map (currentUsers xs) [1 .. math_ceil_div (int (length xs)) usersPerPage]) = xs"
proof -
  let ?P = "math_ceil_div (int (length xs)) usersPerPage"
  have P0: "0 \<le> ?P" and cover: "int (length xs) \<le> 5 * ?P"
    unfolding math_ceil_div_def usersPerPage_def by linarith+
  have "map (currentUsers xs) [1 .. ?P] = map (\<lambda>k. take 5 (drop (5 * k) xs)) [0..<nat ?P]"
    unfolding upto_as_upt[OF P0] by (simp add: currentUsers_take_drop)
  then have "concat (map (currentUsers xs) [1 .. ?P]) = take (5 * nat ?P) xs"
    by (simp only: concat_pages_nat)
  moreover have "length xs \<le> 5 * nat ?P" using cover P0 by linarith
  ultimately show ?thesis by simp
qed

lemma valid_positions:
  "filter (\<lambda>i. 0 \<le> i \<and> i < int n) [lo .. hi - 1] = map int [nat lo ..< min (nat hi) n]"
proof (rule sorted_distinct_set_unique)
  show "sorted (filter (\<lambda>i. 0 \<le> i \<and> i < int n) [lo .. hi - 1])" by (simp add: sorted_filter[where f="\<lambda>x. x", simplified])
  show "distinct (filter (\<lambda>i. 0 \<le> i \<and> i < int n) [lo .. hi - 1])" by simp
  show "sorted (map int [nat lo ..< min (nat hi) n])"
    by (rule sorted_wrt_map_mono[OF sorted_upt]) simp
  show "distinct (map int [nat lo ..< min (nat hi) n])" by (simp add: distinct_map)
  show "set (filter (\<lambda>i. 0 \<le> i \<and> i < int n) [lo .. hi - 1]) = set (map int [nat lo ..< min (nat hi) n])"
  proof (intro set_eqI iffI)
    fix i assume "i \<in> set (filter (\<lambda>i. 0 \<le> i \<and> i < int n) [lo .. hi - 1])"
    then have i: "lo \<le> i" "i < hi" "0 \<le> i" "i < int n" by auto
    then have "nat i \<in> set [nat lo ..< min (nat hi) n]" by auto
    then have "int (nat i) \<in> set (map int [nat lo ..< min (nat hi) n])" unfolding set_map by (rule imageI)
    then show "i \<in> set (map int [nat lo ..< min (nat hi) n])" using i by simp
  next
    fix i assume "i \<in> set (map int [nat lo ..< min (nat hi) n])"
    then show "i \<in> set (filter (\<lambda>i. 0 \<le> i \<and> i < int n) [lo .. hi - 1])" by auto
  qed
qed

lemma map_nth_range:
  "b \<le> length xs \<Longrightarrow> map ((!) xs) [a..<b] = take (b - a) (drop a xs)"
  by (rule nth_equalityI) auto

lemma index_range_take_drop:
  "index_range xs lo hi = take (nat hi - nat lo) (drop (nat lo) xs)"
proof -
  let ?b = "min (nat hi) (length xs)"
  have "index_range xs lo hi = map ((!) xs) [nat lo ..< ?b]"
    by (simp add: index_range_def valid_positions comp_def)
  also have "\<dots> = take (?b - nat lo) (drop (nat lo) xs)"
    by (rule map_nth_range) simp
  also have "\<dots> = take (nat hi - nat lo) (drop (nat lo) xs)"
    by (simp add: min_def)
  finally show ?thesis .
qed

lemma currentUsers_index_range:
  "0 \<le> p \<Longrightarrow> currentUsers xs p = index_range xs (indexOfFirstUser p) (indexOfLastUser p)"
proof (cases "p = 0")
  case True
  then show ?thesis
    by (simp add: currentUsers_zero index_range_take_drop indexOfFirstUser_def indexOfLastUser_def usersPerPage_def)
next
  case False
  assume "0 \<le> p"
  with False have p: "1 \<le> p" by simp
  have "nat (p * 5) - nat (p * 5 - 5) = 5" using p by linarith
  moreover have "nat (p * 5 - 5) = 5 * nat (p - 1)" using p by linarith
  ultimately show ?thesis
    by (simp add: currentUsers_take_drop[OF p] index_range_take_drop indexOfFirstUser_def indexOfLastUser_def usersPerPage_def)
qed

section \<open>The invariant of the reachable states\<close>

lemma state_inv_totalPages:
  "state_inv s \<Longrightarrow> totalPages s = math_ceil_div (int (length (users s))) usersPerPage"
  unfolding state_inv_def by blast

lemma state_inv_page_nonneg: "state_inv s \<Longrightarrow> 0 \<le> currentPage s"
  unfolding state_inv_def by blast

lemma state_inv_page_lower: "state_inv s \<Longrightarrow> users s \<noteq> [] \<Longrightarrow> 1 \<le> currentPage s"
  unfolding state_inv_def by blast

lemma state_inv_loading:
  "state_inv s \<Longrightarrow> loading s \<Longrightarrow> users s = [] \<and> currentPage s = 1 \<and> error s = None"
  unfolding state_inv_def by blast

lemma state_inv_error: "state_inv s \<Longrightarrow> error s \<noteq> None \<Longrightarrow> users s = []"
  unfolding state_inv_def by blast

lemma state_inv_timer: "state_inv s \<Longrightarrow> timer s = Some (d, v) \<Longrightarrow> v = search s"
  unfolding state_inv_def by blast

lemma state_inv_listener:
  "state_inv s \<Longrightarrow> 0 \<le> listenerPage s \<and> (listenerTotal s = 0 \<or> listenerTotal s = totalPages s)"
  unfolding state_inv_def by blast

lemma pages_of_empty: "math_ceil_div 0 usersPerPage = 0"
  by (simp add: math_ceil_div_def)

lemma pages_of_nonempty: "xs \<noteq> [] \<Longrightarrow> 1 \<le> math_ceil_div (int (length xs)) usersPerPage"
proof -
  assume "xs \<noteq> []"
  then have "0 < int (length xs)" by simp
  then show ?thesis unfolding math_ceil_div_def usersPerPage_def by linarith
qed

lemma state_inv_mount: "state_inv (mount a b)"
  by (simp add: state_inv_def mount_def searchEffect_def initial_state_def pages_of_empty)

lemma state_inv_fetchUsers: "state_inv s \<Longrightarrow> loading s \<Longrightarrow> state_inv (fetchUsers r s)"
  by (cases r) (auto simp: state_inv_def pages_of_nonempty pages_of_empty)

text \<open>While nothing is loaded the listener holds the page count 0 and never fires.\<close>

lemma listener_idle:
  assumes "state_inv s" "users s = []"
  shows "\<not> listenerPage s < listenerTotal s"
proof -
  have "totalPages s = 0"
    using state_inv_totalPages[OF assms(1)] assms(2) by (simp add: pages_of_empty)
  then have "listenerTotal s = 0" using state_inv_listener[OF assms(1)] by auto
  then show ?thesis using state_inv_listener[OF assms(1)] by linarith
qed

lemma state_inv_handleScroll: "state_inv s \<Longrightarrow> state_inv (handleScroll v s)"
proof (cases "near_bottom v \<and> listenerPage s < listenerTotal s")
  case False
  assume "state_inv s"
  with False show ?thesis by (auto simp: handleScroll_def)
next
  case True
  assume inv: "state_inv s"
  with True have ne: "users s \<noteq> []" using listener_idle by blast
  then have "\<not> loading s" using state_inv_loading[OF inv] by blast
  with inv ne True show ?thesis by (auto simp: state_inv_def handleScroll_def)
qed

lemma state_inv_scrollEffect: "state_inv s \<Longrightarrow> state_inv (scrollEffect s)"
  by (auto simp: state_inv_def scrollEffect_def)

lemma state_inv_changePage: "state_inv s \<Longrightarrow> \<not> loading s \<Longrightarrow> state_inv (changePage d s)"
proof -
  assume inv: "state_inv s" and "\<not> loading s"
  have "users s \<noteq> [] \<Longrightarrow> 1 \<le> totalPages s"
    using state_inv_totalPages[OF inv] pages_of_nonempty[of "users s"] by simp
  moreover have "0 \<le> totalPages s"
    using state_inv_totalPages[OF inv] pages_of_nonempty[of "users s"] pages_of_empty
    by (cases "users s = []") auto
  ultimately show ?thesis
    using inv \<open>\<not> loading s\<close> by (auto simp: state_inv_def changePage_def Let_def)
qed

lemma state_inv_setSearch: "state_inv s \<Longrightarrow> state_inv (setSearch t v s)"
  by (auto simp: state_inv_def setSearch_def searchEffect_def debounceSearch_def)

lemma state_inv_timerFire: "state_inv s \<Longrightarrow> state_inv (timerFire s)"
proof (cases "timer s")
  case None
  assume "state_inv s"
  with None show ?thesis by (simp add: timerFire_def)
next
  case (Some dv)
  assume inv: "state_inv s"
  obtain d v where dv: "dv = (d, v)" by (cases dv)
  have "state_inv (s\<lparr>timer := None\<rparr>)" using inv by (auto simp: state_inv_def)
  then have "state_inv (setSearch d v (s\<lparr>timer := None\<rparr>))" by (rule state_inv_setSearch)
  then show ?thesis using Some dv by (simp add: timerFire_def)
qed

lemma state_inv_dispatch: "state_inv s \<Longrightarrow> state_inv (dispatch e s)"
proof (cases e)
  case (FetchSettled r)
  assume "state_inv s"
  then show ?thesis using FetchSettled by (simp add: state_inv_fetchUsers)
next
  case (ScrollEv v)
  assume "state_inv s"
  then show ?thesis using ScrollEv by (simp add: state_inv_handleScroll)
next
  case ClickPrev
  assume "state_inv s"
  then show ?thesis using ClickPrev by (simp add: state_inv_changePage controls_rendered_def)
next
  case ClickNext
  assume "state_inv s"
  then show ?thesis using ClickNext by (simp add: state_inv_changePage controls_rendered_def)
next
  case (TypeSearch t v)
  assume "state_inv s"
  then show ?thesis using TypeSearch by (simp add: state_inv_setSearch)
next
  case (SelectCompany c)
  assume "state_inv s"
  then show ?thesis using SelectCompany by (auto simp: state_inv_def)
next
  case ClickSort
  assume "state_inv s"
  then show ?thesis using ClickSort by (auto simp: state_inv_def)
next
  case TimerFire
  assume "state_inv s"
  then show ?thesis using TimerFire by (simp add: state_inv_timerFire)
next
  case Resubscribe
  assume "state_inv s"
  then show ?thesis using Resubscribe by (simp add: state_inv_scrollEffect)
qed

lemma state_inv_run: "state_inv s \<Longrightarrow> state_inv (run evs s)"
  by (induction evs arbitrary: s) (simp_all add: state_inv_dispatch)

lemma state_inv_reachable: "state_inv (run evs (mount a b))"
  by (rule state_inv_run[OF state_inv_mount])

section \<open>The page stays in range while the listener is current\<close>

lemma page_bounded_mount: "page_bounded (mount a b)"
  by (simp add: page_bounded_def mount_def searchEffect_def initial_state_def)

lemma page_bounded_dispatch:
  assumes inv: "state_inv s" and b: "page_bounded s"
    and fresh: "is_scroll e \<Longrightarrow> listener_current s"
  shows "page_bounded (dispatch e s)"
proof (cases e)
  case (FetchSettled r)
  show ?thesis
  proof (cases "loading s")
    case True
    then have "currentPage s = 1" "users s = []" using state_inv_loading[OF inv] by blast+
    then show ?thesis using FetchSettled True pages_of_nonempty
      by (cases r) (auto simp: page_bounded_def)
  next
    case False
    then show ?thesis using FetchSettled b by simp
  qed
next
  case (ScrollEv v)
  then have "listener_current s" using fresh by simp
  then show ?thesis using ScrollEv b
    by (auto simp: page_bounded_def handleScroll_def listener_current_def)
next
  case ClickPrev
  have "users s \<noteq> [] \<Longrightarrow> 1 \<le> totalPages s"
    using state_inv_totalPages[OF inv] pages_of_nonempty[of "users s"] by simp
  then show ?thesis using ClickPrev b by (auto simp: page_bounded_def changePage_def Let_def)
next
  case ClickNext
  have "users s \<noteq> [] \<Longrightarrow> 1 \<le> totalPages s"
    using state_inv_totalPages[OF inv] pages_of_nonempty[of "users s"] by simp
  then show ?thesis using ClickNext b by (auto simp: page_bounded_def changePage_def Let_def)
next
  case (TypeSearch t v)
  then show ?thesis using b
    by (auto simp: page_bounded_def setSearch_def searchEffect_def debounceSearch_def)
next
  case (SelectCompany c)
  then show ?thesis using b by (auto simp: page_bounded_def)
next
  case ClickSort
  then show ?thesis using b by (auto simp: page_bounded_def)
next
  case TimerFire
  then show ?thesis using b
    by (auto simp: page_bounded_def timerFire_def setSearch_def searchEffect_def
        debounceSearch_def split: option.splits)
next
  case Resubscribe
  then show ?thesis using b by (auto simp: page_bounded_def scrollEffect_def)
qed

lemma page_bounded_run:
  "state_inv s \<Longrightarrow> page_bounded s \<Longrightarrow> scrolls_fresh evs s \<Longrightarrow> page_bounded (run evs s)"
proof (induction evs arbitrary: s)
  case Nil
  then show ?case by simp
next
  case (Cons e evs)
  have "page_bounded (dispatch e s)"
    using Cons.prems by (intro page_bounded_dispatch) (auto split: if_splits)
  moreover have "state_inv (dispatch e s)" using Cons.prems(1) by (rule state_inv_dispatch)
  moreover have "scrolls_fresh evs (dispatch e s)" using Cons.prems(3) by simp
  ultimately show ?case using Cons.IH by simp
qed

section \<open>The page index and the page count\<close>

text \<open>
  C1, as stated, fails, in three ways. The page count is computed once, from the loaded
  collection, and a change of the search text does not touch the page index: with six
  records, one scroll to page 2 and a search text that no name contains, the filtered set is
  empty and the page index 2 lies above \<open>max 1 (ceil (0 / 5)) = 1\<close>. Scroll events that
  arrive before the listener is subscribed again pass the guard of the old closure: with
  twelve records, four of them take the page index to 5 of 3 pages. With an empty collection
  the Next button takes the page index to 0.
\<close>

theorem page_index_not_reclamped_counterexample:
  "(let s = run [FetchSettled (Body (example_collection 6)), Resubscribe, ScrollEv at_bottom,
                 Resubscribe, TypeSearch 1000 ''zzz''] (mount None None)
    in currentPage s = 2 \<and> filtered_page_count s = 0 \<and>
       \<not> (1 \<le> currentPage s \<and> currentPage s \<le> max 1 (filtered_page_count s)))
   \<and> (let s = run [FetchSettled (Body (example_collection 12)), Resubscribe,
                    ScrollEv at_bottom, ScrollEv at_bottom, ScrollEv at_bottom,
                    ScrollEv at_bottom] (mount None None)
      in currentPage s = 5 \<and> filtered_page_count s = 3 \<and>
         \<not> (1 \<le> currentPage s \<and> currentPage s \<le> max 1 (filtered_page_count s)))
   \<and> (let s = run [FetchSettled (Body []), Resubscribe, ClickNext] (mount None None)
      in currentPage s = 0 \<and>
         \<not> (1 \<le> currentPage s \<and> currentPage s \<le> max 1 (filtered_page_count s)))"
  by code_simp

text \<open>
  C1, amended. In every reachable state the page count is the ceiling of the size of the
  loaded collection over the page size, and, once a collection with at least one record is
  loaded, the page index is at least 1; it is at most that page count when every scroll
  event of the run met a listener that held the current page index and page count. A change
  of the search text or of the company filter leaves the page index and the page count as
  they are.
\<close>

theorem page_index_within_collection_pages:
  "(let s = run evs (mount a b)
    in totalPages s = math_ceil_div (int (length (users s))) usersPerPage \<and>
       (users s \<noteq> [] \<longrightarrow> 1 \<le> currentPage s) \<and>
       (scrolls_fresh evs (mount a b) \<and> users s \<noteq> [] \<longrightarrow> currentPage s \<le> totalPages s))
   \<and> currentPage (dispatch (TypeSearch t v) s0) = currentPage s0
   \<and> totalPages (dispatch (TypeSearch t v) s0) = totalPages s0
   \<and> currentPage (dispatch (SelectCompany c) s0) = currentPage s0
   \<and> totalPages (dispatch (SelectCompany c) s0) = totalPages s0"
proof -
  have inv: "state_inv (run evs (mount a b))" by (rule state_inv_reachable)
  have upper: "scrolls_fresh evs (mount a b) \<and> users (run evs (mount a b)) \<noteq> [] \<longrightarrow>
      currentPage (run evs (mount a b)) \<le> totalPages (run evs (mount a b))"
  proof (intro impI, elim conjE)
    assume "scrolls_fresh evs (mount a b)" and ne: "users (run evs (mount a b)) \<noteq> []"
    then have "page_bounded (run evs (mount a b))"
      by (intro page_bounded_run state_inv_mount page_bounded_mount)
    with ne show "currentPage (run evs (mount a b)) \<le> totalPages (run evs (mount a b))"
      unfolding page_bounded_def by blast
  qed
  have "let s = run evs (mount a b)
    in totalPages s = math_ceil_div (int (length (users s))) usersPerPage \<and>
       (users s \<noteq> [] \<longrightarrow> 1 \<le> currentPage s) \<and>
       (scrolls_fresh evs (mount a b) \<and> users s \<noteq> [] \<longrightarrow> currentPage s \<le> totalPages s)"
    unfolding Let_def
    using state_inv_totalPages[OF inv] state_inv_page_lower[OF inv] upper by blast
  moreover have "currentPage (dispatch (TypeSearch t v) s0) = currentPage s0"
    "totalPages (dispatch (TypeSearch t v) s0) = totalPages s0"
    by (simp_all add: setSearch_def searchEffect_def debounceSearch_def)
  moreover have "currentPage (dispatch (SelectCompany c) s0) = currentPage s0"
    "totalPages (dispatch (SelectCompany c) s0) = totalPages s0"
    by simp_all
  ultimately show ?thesis by blast
qed

theorem page_index_within_collection_pages_witness:
  "(let evs = [FetchSettled (Body (example_collection 6)), Resubscribe, ScrollEv at_bottom,
               Resubscribe, ScrollEv at_bottom, TypeSearch 1000 ''zzz''];
        s = run evs (mount None None)
    in scrolls_fresh evs (mount None None) \<and> users s \<noteq> [] \<and>
       1 \<le> currentPage s \<and> currentPage s \<le> totalPages s)"
proof -
  let ?E = "[FetchSettled (Body (example_collection 6)), Resubscribe, ScrollEv at_bottom,
               Resubscribe, ScrollEv at_bottom, TypeSearch 1000 ''zzz'']"
  have h: "scrolls_fresh ?E (mount None None)" "users (run ?E (mount None None)) \<noteq> []"
    by code_simp+
  from page_index_within_collection_pages[of ?E None None] h show ?thesis
    unfolding Let_def by blast
qed

text \<open>
  C3, as stated, fails on the page count: an empty collection has page count 0 and not 1, and
  six records of which the filter keeps none have page count 2 and not 1.
\<close>

theorem page_count_counterexample:
  "(let s = run [FetchSettled (Body [])] (mount None None)
    in totalPages s \<noteq> max 1 (math_ceil_div (int (length
         (sortedUsers codeUnitCompare (sortOrder s)
            (filteredUsers (users s) (search s) (companyFilter s))))) usersPerPage))
   \<and> (let s = run [FetchSettled (Body (example_collection 6)), TypeSearch 1000 ''zzz'']
                 (mount None None)
      in totalPages s \<noteq> max 1 (math_ceil_div (int (length
         (sortedUsers codeUnitCompare (sortOrder s)
            (filteredUsers (users s) (search s) (companyFilter s))))) usersPerPage))"
  by code_simp

text \<open>
  C3, amended. In every reachable state the page count is the ceiling of the size of the
  loaded collection over the page size (0 for the empty collection), and the displayed page
  is the slice of the filtered and sorted sequence at the positions from
  \<open>(currentPage - 1) * usersPerPage\<close> up to, and not including, \<open>currentPage * usersPerPage\<close>.
\<close>

theorem page_count_and_slice:
  "(let s = run evs (mount a b);
        fs = sortedUsers localeCompare (sortOrder s)
               (filteredUsers (users s) (search s) (companyFilter s))
    in totalPages s = math_ceil_div (int (length (users s))) usersPerPage \<and>
       derived_page localeCompare s =
         index_range fs ((currentPage s - 1) * usersPerPage) (currentPage s * usersPerPage))"
proof -
  have inv: "state_inv (run evs (mount a b))" by (rule state_inv_reachable)
  then have "0 \<le> currentPage (run evs (mount a b))" by (rule state_inv_page_nonneg)
  then have "derived_page localeCompare (run evs (mount a b)) =
      index_range (sortedUsers localeCompare (sortOrder (run evs (mount a b)))
               (filteredUsers (users (run evs (mount a b))) (search (run evs (mount a b)))
                  (companyFilter (run evs (mount a b)))))
        ((currentPage (run evs (mount a b)) - 1) * usersPerPage)
        (currentPage (run evs (mount a b)) * usersPerPage)"
    by (simp add: derived_page_def currentUsers_index_range indexOfFirstUser_def
        indexOfLastUser_def algebra_simps)
  moreover have "totalPages (run evs (mount a b)) =
      math_ceil_div (int (length (users (run evs (mount a b))))) usersPerPage"
    using inv by (rule state_inv_totalPages)
  ultimately show ?thesis by (simp only: Let_def)
qed

section \<open>Page buttons\<close>

text \<open>
  C9. The page-change operation sets the page to \<open>min (max (p + d) 1) totalPages\<close> for the
  prior page \<open>p\<close> and every direction \<open>d\<close>. With at least one page the result lies between
  1 and the page count; with a page count of 0 the result is page 0. The Prev and Next buttons
  run the operation with the directions \<open>- 1\<close> and \<open>1\<close> whenever they are enabled.
\<close>

theorem changePage_clamps:
  "currentPage (changePage d s) = min (max (currentPage s + d) 1) (totalPages s)
   \<and> (1 \<le> totalPages s \<longrightarrow>
        1 \<le> currentPage (changePage d s) \<and> currentPage (changePage d s) \<le> totalPages s)
   \<and> (totalPages s = 0 \<longrightarrow> currentPage (changePage d s) = 0)
   \<and> (controls_rendered s \<and> currentPage s \<noteq> 1 \<longrightarrow>
        dispatch ClickPrev s = changePage (- 1) s)
   \<and> (controls_rendered s \<and> currentPage s \<noteq> totalPages s \<longrightarrow>
        dispatch ClickNext s = changePage 1 s)"
proof -
  have result: "currentPage (changePage d s) = min (max (currentPage s + d) 1) (totalPages s)"
    by (simp add: changePage_def Let_def)
  have inside: "1 \<le> totalPages s \<longrightarrow>
      1 \<le> currentPage (changePage d s) \<and> currentPage (changePage d s) \<le> totalPages s"
    unfolding result by linarith
  have zero: "totalPages s = 0 \<longrightarrow> currentPage (changePage d s) = 0"
    unfolding result by linarith
  have buttons: "controls_rendered s \<and> currentPage s \<noteq> 1 \<longrightarrow>
      dispatch ClickPrev s = changePage (- 1) s"
    "controls_rendered s \<and> currentPage s \<noteq> totalPages s \<longrightarrow>
      dispatch ClickNext s = changePage 1 s"
    by simp_all
  from result inside zero buttons show ?thesis by blast
qed

theorem changePage_clamps_witness:
  "(let s = run [FetchSettled (Body (example_collection 6))] (mount None None)
    in 1 \<le> totalPages s \<and> currentPage (changePage 1 s) = 2 \<and>
       currentPage (changePage (- 1) s) = 1)
   \<and> (let s = run [FetchSettled (Body [])] (mount None None)
      in totalPages s = 0 \<and> currentPage s = 1 \<and> currentPage (changePage 1 s) = 0 \<and>
         currentPage (dispatch ClickNext s) = 0)"
proof -
  let ?s = "run [FetchSettled (Body (example_collection 6))] (mount None None)"
  let ?e = "run [FetchSettled (Body [])] (mount None None)"
  have s: "totalPages ?s = 2" "currentPage ?s = 1" by code_simp+
  have e: "totalPages ?e = 0" "currentPage ?e = 1" "currentPage (dispatch ClickNext ?e) = 0"
    by code_simp+
  from changePage_clamps[of 1 ?s] changePage_clamps[of "- 1" ?s] changePage_clamps[of 1 ?e] s e
  show ?thesis unfolding Let_def by simp
qed

section \<open>Scrolling\<close>

text \<open>
  C5, as stated, fails, in two ways. The guard compares with the page count of the whole
  collection: with six records and a search text that no name contains, the filtered set has
  no page, and a near-bottom scroll event still moves the page index from 1 to 2. Scroll
  events that arrive before the listener is subscribed again pass the guard of the old
  closure: with twelve records and three pages, four consecutive near-bottom events take the
  page index to 2, 3, 4 and 5.
\<close>

theorem scroll_passes_page_count_counterexample:
  "(let s = run [FetchSettled (Body (example_collection 6)), Resubscribe,
                 TypeSearch 1000 ''zzz'', Resubscribe] (mount None None);
        s' = dispatch (ScrollEv at_bottom) s
    in near_bottom at_bottom \<and> listener_current s \<and> filtered_page_count s' = 0 \<and>
       currentPage s = 1 \<and> currentPage s' = 2 \<and>
       max 1 (filtered_page_count s') < currentPage s')
   \<and> (let s0 = run [FetchSettled (Body (example_collection 12)), Resubscribe] (mount None None);
          s1 = dispatch (ScrollEv at_bottom) s0;
          s2 = dispatch (ScrollEv at_bottom) s1;
          s3 = dispatch (ScrollEv at_bottom) s2;
          s4 = dispatch (ScrollEv at_bottom) s3
      in totalPages s0 = 3 \<and> filtered_page_count s0 = 3 \<and> currentPage s0 = 1 \<and>
         currentPage s1 = 2 \<and> currentPage s2 = 3 \<and> currentPage s3 = 4 \<and>
         currentPage s4 = 5)"
  by code_simp

text \<open>
  C5, amended. The page count is that of the whole loaded collection. A scroll event near
  the bottom that meets a listener holding the current page index and page count, with the
  page index below the page count, adds exactly 1 to the page index; a distance to the bottom
  below 5 is near the bottom; no scroll event lowers the page index, and one that meets such
  a listener does not take it above the page count when it was not above it. With 12 records
  the page count is 3 and the page index starts at 1; near-bottom scroll events, each
  followed by the listener's subscription, take it to 2 and 3, and further ones leave it
  at 3.
\<close>

theorem handleScroll_advances_when_current:
  "(listener_current s \<and> near_bottom v \<and> currentPage s < totalPages s \<longrightarrow>
      currentPage (handleScroll v s) = currentPage s + 1)
   \<and> (scrollHeight v - (innerHeight v + scrollTop v) < 5 \<longrightarrow> near_bottom v)
   \<and> currentPage s \<le> currentPage (handleScroll v s)
   \<and> (listener_current s \<longrightarrow>
        currentPage (handleScroll v s) \<le> max (currentPage s) (totalPages s))
   \<and> totalPages (run evs (mount a b)) =
       math_ceil_div (int (length (users (run evs (mount a b))))) usersPerPage
   \<and> (length data = 12 \<and> near_bottom v1 \<and> near_bottom v2 \<and> near_bottom v3 \<and> near_bottom v4 \<longrightarrow>
        (let s0 = run [FetchSettled (Body data), Resubscribe] (mount a b);
             s1 = run [ScrollEv v1, Resubscribe] s0;
             s2 = run [ScrollEv v2, Resubscribe] s1;
             s3 = run [ScrollEv v3, Resubscribe] s2;
             s4 = run [ScrollEv v4, Resubscribe] s3
         in totalPages s0 = 3 \<and> currentPage s0 = 1 \<and> currentPage s1 = 2 \<and>
            currentPage s2 = 3 \<and> currentPage s3 = 3 \<and> currentPage s4 = 3))"
proof -
  have "math_ceil_div 12 5 = 3" by (simp add: math_ceil_div_def)
  then have scen: "length data = 12 \<and> near_bottom v1 \<and> near_bottom v2 \<and> near_bottom v3 \<and> near_bottom v4 \<longrightarrow>
        (let s0 = run [FetchSettled (Body data), Resubscribe] (mount a b);
             s1 = run [ScrollEv v1, Resubscribe] s0;
             s2 = run [ScrollEv v2, Resubscribe] s1;
             s3 = run [ScrollEv v3, Resubscribe] s2;
             s4 = run [ScrollEv v4, Resubscribe] s3
         in totalPages s0 = 3 \<and> currentPage s0 = 1 \<and> currentPage s1 = 2 \<and>
            currentPage s2 = 3 \<and> currentPage s3 = 3 \<and> currentPage s4 = 3)"
    by (simp add: Let_def mount_def searchEffect_def initial_state_def handleScroll_def
        scrollEffect_def usersPerPage_def)
  have step: "listener_current s \<and> near_bottom v \<and> currentPage s < totalPages s \<longrightarrow>
      currentPage (handleScroll v s) = currentPage s + 1"
    "scrollHeight v - (innerHeight v + scrollTop v) < 5 \<longrightarrow> near_bottom v"
    "currentPage s \<le> currentPage (handleScroll v s)"
    "listener_current s \<longrightarrow>
      currentPage (handleScroll v s) \<le> max (currentPage s) (totalPages s)"
    by (simp_all add: handleScroll_def near_bottom_def listener_current_def)
  have "totalPages (run evs (mount a b)) =
       math_ceil_div (int (length (users (run evs (mount a b))))) usersPerPage"
    by (rule state_inv_totalPages[OF state_inv_reachable])
  with scen step show ?thesis by blast
qed

theorem handleScroll_advances_when_current_witness:
  "near_bottom at_bottom \<and> length (example_collection 12) = 12 \<and>
   (let s0 = run [FetchSettled (Body (example_collection 12)), Resubscribe] (mount None None);
        s1 = run [ScrollEv at_bottom, Resubscribe] s0;
        s2 = run [ScrollEv at_bottom, Resubscribe] s1;
        s3 = run [ScrollEv at_bottom, Resubscribe] s2;
        s4 = run [ScrollEv at_bottom, Resubscribe] s3
    in listener_current s0 \<and> currentPage s0 < totalPages s0 \<and>
       currentPage (handleScroll at_bottom s0) = 2 \<and>
       currentPage s1 = 2 \<and> currentPage s2 = 3 \<and> currentPage s3 = 3 \<and> currentPage s4 = 3)"
proof -
  let ?s0 = "run [FetchSettled (Body (example_collection 12)), Resubscribe] (mount None None)"
  have nb: "near_bottom at_bottom" by (simp add: near_bottom_def at_bottom_def)
  have len: "length (example_collection 12) = 12" by (simp add: example_collection_def)
  have lt: "listener_current ?s0" "currentPage ?s0 = 1" "totalPages ?s0 = 3" by code_simp+
  from handleScroll_advances_when_current[of ?s0 at_bottom "[]" None None
      "example_collection 12" at_bottom at_bottom at_bottom at_bottom] nb len lt
  show ?thesis unfolding Let_def by simp
qed

section \<open>Pages partition the sequence\<close>

lemma pages_disjoint_ordered:
  assumes "distinct xs" "1 \<le> p" "p < q"
  shows "set (currentUsers xs p) \<inter> set (currentUsers xs q) = {}"
proof -
  let ?a = "5 * nat (p - 1)" and ?b = "5 * nat (q - 1)"
  have ab: "?a + 5 \<le> ?b" using assms by linarith
  have "set (take 5 (drop ?b xs)) \<subseteq> set (drop ?b xs)" by (rule set_take_subset)
  also have "drop ?b xs = drop (?b - ?a) (drop ?a xs)" using ab by simp
  finally have sub: "set (currentUsers xs q) \<subseteq> set (drop (?b - ?a) (drop ?a xs))"
    using assms by (simp add: currentUsers_take_drop)
  have "set (take 5 (drop ?a xs)) \<inter> set (drop (?b - ?a) (drop ?a xs)) = {}"
    by (rule set_take_disj_set_drop_if_distinct) (use assms ab in auto)
  then show ?thesis using sub assms by (auto simp: currentUsers_take_drop)
qed

lemma page_ranges_disjoint:
  "p \<noteq> q \<Longrightarrow>
   {indexOfFirstUser p ..< indexOfLastUser p} \<inter> {indexOfFirstUser q ..< indexOfLastUser q} = {}"
  by (auto simp: indexOfFirstUser_def indexOfLastUser_def usersPerPage_def)

text \<open>
  C10. Every page slice has at most \<open>usersPerPage\<close> records; the slices of the pages 1 to
  \<open>ceil (n / usersPerPage)\<close>, concatenated in page order, are the whole sequence; the slice
  of a page is the sequence at the positions of its index range, and the index ranges of two
  different pages are disjoint, so two different pages of a sequence without repeated
  records share no record.
\<close>

theorem pages_partition:
  "int (length (currentUsers xs p)) \<le> usersPerPage
   \<and> concat (map (currentUsers xs) [1 .. math_ceil_div (int (length xs)) usersPerPage]) = xs
   \<and> (1 \<le> p \<longrightarrow> currentUsers xs p = index_range xs (indexOfFirstUser p) (indexOfLastUser p))
   \<and> (p \<noteq> q \<longrightarrow>
        {indexOfFirstUser p ..< indexOfLastUser p} \<inter>
        {indexOfFirstUser q ..< indexOfLastUser q} = {})
   \<and> (distinct xs \<and> 1 \<le> p \<and> 1 \<le> q \<and> p \<noteq> q \<longrightarrow>
        set (currentUsers xs p) \<inter> set (currentUsers xs q) = {})"
proof -
  have len: "int (length (currentUsers xs p)) \<le> usersPerPage"
    using length_currentUsers[of xs p] by (simp add: usersPerPage_def)
  have slice: "1 \<le> p \<longrightarrow>
      currentUsers xs p = index_range xs (indexOfFirstUser p) (indexOfLastUser p)"
    by (simp add: currentUsers_index_range)
  have disj: "distinct xs \<and> 1 \<le> p \<and> 1 \<le> q \<and> p \<noteq> q \<longrightarrow>
      set (currentUsers xs p) \<inter> set (currentUsers xs q) = {}"
  proof (intro impI, elim conjE)
    assume d: "distinct xs" and p: "1 \<le> p" and q: "1 \<le> q" and "p \<noteq> q"
    then consider "p < q" | "q < p" by linarith
    then show "set (currentUsers xs p) \<inter> set (currentUsers xs q) = {}"
    proof cases
      case 1
      then show ?thesis using d p by (rule pages_disjoint_ordered[rotated 2])
    next
      case 2
      then have "set (currentUsers xs q) \<inter> set (currentUsers xs p) = {}"
        using d q by (rule pages_disjoint_ordered[rotated 2])
      then show ?thesis by blast
    qed
  qed
  from len concat_pages[of xs] slice page_ranges_disjoint[of p q] disj
  show ?thesis by blast
qed

theorem pages_partition_witness:
  "distinct (example_collection 12) \<and>
   map user_id (currentUsers (example_collection 12) 1) = [1, 2, 3, 4, 5] \<and>
   map user_id (currentUsers (example_collection 12) 3) = [11, 12] \<and>
   set (currentUsers (example_collection 12) 1) \<inter> set (currentUsers (example_collection 12) 3) = {} \<and>
   concat (map (currentUsers (example_collection 12)) [1 .. 3]) = example_collection 12"
proof -
  have d: "distinct (example_collection 12)" by code_simp
  have pc: "math_ceil_div (int (length (example_collection 12))) usersPerPage = 3" by code_simp
  have p1: "map user_id (currentUsers (example_collection 12) 1) = [1, 2, 3, 4, 5]" by code_simp
  have p3: "map user_id (currentUsers (example_collection 12) 3) = [11, 12]" by code_simp
  note part = pages_partition[of "example_collection 12" 1 3]
  have ar: "(1::int) \<le> 1 \<and> (1::int) \<le> 3 \<and> (1::int) \<noteq> 3" by simp
  from part d ar
  have dj: "set (currentUsers (example_collection 12) 1) \<inter>
      set (currentUsers (example_collection 12) 3) = {}" by blast
  from part have "concat (map (currentUsers (example_collection 12))
      [1 .. math_ceil_div (int (length (example_collection 12))) usersPerPage]) =
      example_collection 12" by blast
  then have "concat (map (currentUsers (example_collection 12)) [1 .. 3]) =
      example_collection 12" by (simp only: pc)
  with d p1 p3 dj show ?thesis by blast
qed

section \<open>The scenario of the names John, Bob and Rose\<close>

text \<open>
  C6, as stated, fails: \<open>bob\<close> contains the letter \<open>o\<close>, so the filter keeps Bob and the
  names it keeps are not the set of John and Rose.
\<close>

theorem john_bob_rose_counterexample:
  "set (map name (filteredUsers john_bob_rose ''o'' [])) \<noteq> {''John'', ''Rose''}"
proof
  assume eq: "set (map name (filteredUsers john_bob_rose ''o'' [])) = {''John'', ''Rose''}"
  have kept: "map name (filteredUsers john_bob_rose ''o'' []) = [''John'', ''Bob'', ''Rose'']"
    by code_simp
  have "''Bob'' \<in> set (map name (filteredUsers john_bob_rose ''o'' []))"
    unfolding kept by simp
  then have "''Bob'' \<in> {''John'', ''Rose''}" unfolding eq .
  then show False by simp
qed

text \<open>
  C6, amended. With the search text \<open>o\<close> and no company filter, the filter step keeps all
  three records named John, Bob and Rose, in their order.
\<close>

theorem search_o_keeps_john_bob_rose:
  "map name us = [''John'', ''Bob'', ''Rose''] \<longrightarrow> filteredUsers us ''o'' [] = us"
proof
  assume n: "map name us = [''John'', ''Bob'', ''Rose'']"
  then obtain a b c where us: "us = [a, b, c]" and names: "name a = ''John''" "name b = ''Bob''" "name c = ''Rose''"
    by auto
  have "str_includes (toLowerCase ''John'') (toLowerCase ''o'')"
    "str_includes (toLowerCase ''Bob'') (toLowerCase ''o'')"
    "str_includes (toLowerCase ''Rose'') (toLowerCase ''o'')"
    by code_simp+
  then have m: "isNameMatch ''o'' a" "isNameMatch ''o'' b" "isNameMatch ''o'' c"
    unfolding isNameMatch_def names by blast+
  have cm: "\<And>u. isCompanyMatch [] u" by (simp add: isCompanyMatch_def)
  show "filteredUsers us ''o'' [] = us"
    unfolding us filteredUsers_def using m cm by simp
qed

theorem search_o_keeps_john_bob_rose_witness:
  "map name john_bob_rose = [''John'', ''Bob'', ''Rose''] \<and>
   filteredUsers john_bob_rose ''o'' [] = john_bob_rose"
proof -
  have n: "map name john_bob_rose = [''John'', ''Bob'', ''Rose'']"
    by (simp add: john_bob_rose_def mk_user_def)
  from search_o_keeps_john_bob_rose[of john_bob_rose] n show ?thesis by blast
qed

section \<open>A failed load\<close>

lemma loading_dispatch:
  "loading s \<Longrightarrow> \<not> is_fetch e \<Longrightarrow> loading (dispatch e s)"
  by (cases e)
    (auto simp: controls_rendered_def handleScroll_def timerFire_def setSearch_def
      searchEffect_def debounceSearch_def scrollEffect_def split: option.splits)

lemma loading_run:
  "loading s \<Longrightarrow> \<not> list_ex is_fetch pre \<Longrightarrow> loading (run pre s)"
  by (induction pre arbitrary: s) (simp_all add: loading_dispatch)

lemma settled_dispatch:
  "\<not> loading s \<Longrightarrow>
   users (dispatch e s) = users s \<and> error (dispatch e s) = error s \<and>
   totalPages (dispatch e s) = totalPages s \<and> \<not> loading (dispatch e s)"
  by (cases e)
    (auto simp: handleScroll_def changePage_def timerFire_def setSearch_def
      searchEffect_def debounceSearch_def scrollEffect_def split: option.splits)

lemma settled_run:
  "\<not> loading s \<Longrightarrow>
   users (run evs s) = users s \<and> error (run evs s) = error s \<and>
   totalPages (run evs s) = totalPages s \<and> \<not> loading (run evs s)"
proof (induction evs arbitrary: s)
  case Nil
  then show ?case by simp
next
  case (Cons e evs)
  from settled_dispatch[OF Cons.prems, of e] Cons.IH[of "dispatch e s"]
  show ?case by simp
qed

lemma cards_without_users: "users s = [] \<Longrightarrow> cards (render localeCompare s) = []"
  by (simp add: render_def derived_page_def filteredUsers_def sortedUsers_def array_sort_def
      currentUsers_def js_slice_def Let_def)

text \<open>
  C8. When the request fails (the transport rejects, the response is not ok, or the body does
  not parse), the component leaves the loading state with the reason in \<open>error\<close>, and after
  every later sequence of events the reason is still there, the record list is still empty,
  the page count is 0 and the rendered screen shows no record: nothing loads again.
\<close>

theorem failed_load_is_terminal:
  "failure_reason r = Some msg \<and> \<not> list_ex is_fetch pre \<longrightarrow>
     (let s = run post (dispatch (FetchSettled r) (run pre (mount a b)))
      in error s = Some msg \<and> users s = [] \<and> totalPages s = 0 \<and> \<not> loading s \<and>
         cards (render localeCompare s) = [])"
proof (intro impI, elim conjE)
  assume fr: "failure_reason r = Some msg" and pre: "\<not> list_ex is_fetch pre"
  let ?p = "run pre (mount a b)"
  let ?f = "dispatch (FetchSettled r) ?p"
  have "loading (mount a b)" by (simp add: mount_def searchEffect_def initial_state_def)
  then have lp: "loading ?p" using pre by (rule loading_run)
  have inv: "state_inv ?p" by (rule state_inv_reachable)
  have up: "users ?p = []" using state_inv_loading[OF inv lp] by blast
  have tp: "totalPages ?p = 0"
    using state_inv_totalPages[OF inv] up by (simp add: pages_of_empty)
  have f: "error ?f = Some msg \<and> users ?f = [] \<and> totalPages ?f = 0 \<and> \<not> loading ?f"
    using fr lp up tp by (cases r) simp_all
  then have "\<not> loading ?f" by blast
  from settled_run[OF this, of post] f
  have s: "error (run post ?f) = Some msg \<and> users (run post ?f) = [] \<and>
      totalPages (run post ?f) = 0 \<and> \<not> loading (run post ?f)" by simp
  then have "cards (render localeCompare (run post ?f)) = []"
    by (simp add: cards_without_users)
  with s show "let s = run post ?f
      in error s = Some msg \<and> users s = [] \<and> totalPages s = 0 \<and> \<not> loading s \<and>
         cards (render localeCompare s) = []"
    by (simp only: Let_def) blast
qed

theorem failed_load_is_terminal_witness:
  "failure_reason HttpNotOk = Some ''Failed to fetch data.'' \<and>
   \<not> list_ex is_fetch [ScrollEv at_bottom, TimerFire] \<and>
   (let s = run [ScrollEv at_bottom, ClickNext, TypeSearch 500 ''a'',
                 FetchSettled (Body john_bob_rose)]
              (dispatch (FetchSettled HttpNotOk)
                 (run [ScrollEv at_bottom, TimerFire] (mount None None)))
    in error s = Some ''Failed to fetch data.'' \<and> users s = [] \<and> \<not> loading s \<and>
       render codeUnitCompare s = ErrorScreen ''Failed to fetch data.'')"
proof -
  let ?post = "[ScrollEv at_bottom, ClickNext, TypeSearch 500 ''a'',
                 FetchSettled (Body john_bob_rose)]"
  let ?pre = "[ScrollEv at_bottom, TimerFire]"
  have h: "failure_reason HttpNotOk = Some ''Failed to fetch data.''"
    "\<not> list_ex is_fetch ?pre" by simp_all
  have r: "render codeUnitCompare (run ?post (dispatch (FetchSettled HttpNotOk)
      (run ?pre (mount None None)))) = ErrorScreen ''Failed to fetch data.''"
    by code_simp
  from failed_load_is_terminal[of HttpNotOk "''Failed to fetch data.''" ?pre ?post None None
      codeUnitCompare] h r
  show ?thesis by (simp only: Let_def) blast
qed

section \<open>The search input is not debounced\<close>

text \<open>
  The input handler stores the typed text at once, and the timer's callback stores the text
  that \<open>search\<close> already holds.
\<close>

lemma typing_commits_at_once:
  "controls_rendered s \<Longrightarrow> search (dispatch (TypeSearch t v) s) = v"
  by (simp add: setSearch_def searchEffect_def debounceSearch_def)

lemma timer_commits_nothing: "state_inv s \<Longrightarrow> search (dispatch TimerFire s) = search s"
  by (auto simp: timerFire_def setSearch_def searchEffect_def debounceSearch_def
      split: option.splits dest: state_inv_timer)

text \<open>
  C2. The claim asks for one commit after 300 milliseconds of quiet. The component commits
  every input at once: the keystrokes \<open>a\<close>, \<open>al\<close>, \<open>ali\<close>, \<open>alice\<close> at 0, 50, 100 and 300
  milliseconds put each of the four texts into \<open>search\<close> when it is typed, and the timer
  that fires afterwards changes nothing.
\<close>

theorem search_commits_every_keystroke:
  "search_trace
     [TypeSearch 0 ''a'', TypeSearch 50 ''al'', TypeSearch 100 ''ali'', TypeSearch 300 ''alice'',
      TimerFire]
     (run [FetchSettled (Body john_bob_rose)] (mount None None))
   = [''a'', ''al'', ''ali'', ''alice'', ''alice'']"
  by code_simp

section \<open>The code-unit collation\<close>

lemma codeUnitCompare_refl: "codeUnitCompare a a = 0"
  by (induction a) simp_all

lemma codeUnitCompare_sign: "(codeUnitCompare a b < 0) = (0 < codeUnitCompare b a)"
  by (induction a b rule: codeUnitCompare.induct) (auto simp: not_less le_less)

lemma codeUnitCompare_trans:
  "codeUnitCompare a b \<le> 0 \<Longrightarrow> codeUnitCompare b c \<le> 0 \<Longrightarrow> codeUnitCompare a c \<le> 0"
proof (induction a arbitrary: b c)
  case Nil
  then show ?case by (cases c) simp_all
next
  case (Cons x a)
  from Cons.prems obtain y b' where b: "b = y # b'" by (cases b) auto
  from Cons.prems b obtain z c' where c: "c = z # c'" by (cases c) auto
  show ?case using Cons.prems Cons.IH[of b' c'] unfolding b c
    by (auto split: if_splits)
qed

lemma consistent_codeUnitCompare: "consistent_comparator codeUnitCompare"
  unfolding consistent_comparator_def
  using codeUnitCompare_refl codeUnitCompare_sign codeUnitCompare_trans
  by blast

lemma consistent_collate_ignoring_controls: "consistent_comparator collate_ignoring_controls"
  unfolding consistent_comparator_def collate_ignoring_controls_def
  using codeUnitCompare_refl codeUnitCompare_sign codeUnitCompare_trans
  by blast

lemma collate_ignoring_controls_not_strict:
  "collate_ignoring_controls ''ab'' [CHR ''a'', char_of (1 :: nat), CHR ''b''] = 0"
  by code_simp

section \<open>The stable sort\<close>

lemma set_insert_by: "set (insert_by c x ys) = insert x (set ys)"
  by (induction ys) auto

lemma set_array_sort: "set (array_sort c xs) = set xs"
  by (induction xs) (simp_all add: array_sort_def set_insert_by)

lemma distinct_insert_by: "distinct (insert_by c x ys) = (x \<notin> set ys \<and> distinct ys)"
  by (induction ys) (auto simp: set_insert_by)

lemma distinct_array_sort: "distinct (array_sort c xs) = distinct xs"
  by (induction xs) (simp_all add: array_sort_def distinct_insert_by set_array_sort[unfolded array_sort_def])

lemma sorted_insert_by:
  assumes tot: "\<And>a b. c a b \<le> 0 \<or> c b a \<le> 0"
    and trans: "\<And>a b d. c a b \<le> 0 \<Longrightarrow> c b d \<le> 0 \<Longrightarrow> c a d \<le> 0"
  shows "sorted_wrt (\<lambda>a b. c a b \<le> 0) ys \<Longrightarrow> sorted_wrt (\<lambda>a b. c a b \<le> 0) (insert_by c x ys)"
proof (induction ys)
  case Nil
  show ?case by simp
next
  case (Cons y ys)
  show ?case
  proof (cases "c x y \<le> 0")
    case True
    then have "\<forall>z\<in>set ys. c x z \<le> 0" using Cons.prems trans by auto
    then show ?thesis using True Cons.prems by simp
  next
    case False
    then have "c y x \<le> 0" using tot by blast
    then show ?thesis using False Cons by (auto simp: set_insert_by)
  qed
qed

lemma sorted_array_sort:
  assumes tot: "\<And>a b. c a b \<le> 0 \<or> c b a \<le> 0"
    and trans: "\<And>a b d. c a b \<le> 0 \<Longrightarrow> c b d \<le> 0 \<Longrightarrow> c a d \<le> 0"
  shows "sorted_wrt (\<lambda>a b. c a b \<le> 0) (array_sort c xs)"
proof (induction xs)
  case Nil
  show ?case by (simp add: array_sort_def)
next
  case (Cons x xs)
  have "array_sort c (x # xs) = insert_by c x (array_sort c xs)" by (simp add: array_sort_def)
  then show ?case using sorted_insert_by[of c, OF tot trans Cons] by simp
qed

lemma sorted_wrt_unique:
  assumes anti: "\<And>a b. a \<in> set xs \<Longrightarrow> b \<in> set xs \<Longrightarrow> R a b \<Longrightarrow> R b a \<Longrightarrow> a = b"
  shows "sorted_wrt R xs \<Longrightarrow> sorted_wrt R ys \<Longrightarrow> distinct xs \<Longrightarrow> distinct ys \<Longrightarrow>
         set xs = set ys \<Longrightarrow> xs = ys"
  using anti
proof (induction xs arbitrary: ys)
  case Nil
  then show ?case by simp
next
  case (Cons x xs)
  from Cons.prems(5) obtain y ys' where ys: "ys = y # ys'" by (cases ys) auto
  have xy: "x = y"
  proof (rule ccontr)
    assume ne: "x \<noteq> y"
    then have "x \<in> set ys'" "y \<in> set xs" using Cons.prems(5) ys by auto
    then have "R y x" "R x y" using Cons.prems(1,2) ys by auto
    moreover have "x \<in> set (x # xs)" "y \<in> set (x # xs)" using \<open>y \<in> set xs\<close> by auto
    ultimately have "x = y" using Cons.prems(6) by blast
    with ne show False by blast
  qed
  have "set xs = set ys'" using Cons.prems(3,4,5) ys xy by auto
  moreover have "\<And>a b. a \<in> set xs \<Longrightarrow> b \<in> set xs \<Longrightarrow> R a b \<Longrightarrow> R b a \<Longrightarrow> a = b"
    using Cons.prems(6) by auto
  ultimately have "xs = ys'" using Cons.IH[of ys'] Cons.prems(1,2,3,4) ys by auto
  with xy ys show ?case by simp
qed

section \<open>Ascending and descending order\<close>

lemma compareUsers_asc:
  "compareUsers cmp ''asc'' a b = cmp (toLowerCase (name a)) (toLowerCase (name b))"
  by (simp add: compareUsers_def)

lemma compareUsers_desc:
  "compareUsers cmp ''desc'' a b = cmp (toLowerCase (name b)) (toLowerCase (name a))"
  by (simp add: compareUsers_def)

lemma consistent_total: "consistent_comparator cmp \<Longrightarrow> cmp a b \<le> 0 \<or> cmp b a \<le> 0"
proof -
  assume "consistent_comparator cmp"
  then have "(cmp b a < 0) = (0 < cmp a b)" unfolding consistent_comparator_def by blast
  then show ?thesis by linarith
qed

lemma consistent_trans:
  "consistent_comparator cmp \<Longrightarrow> cmp a b \<le> 0 \<Longrightarrow> cmp b c \<le> 0 \<Longrightarrow> cmp a c \<le> 0"
  unfolding consistent_comparator_def by blast

lemma consistent_both_zero:
  "consistent_comparator cmp \<Longrightarrow> cmp a b \<le> 0 \<Longrightarrow> cmp b a \<le> 0 \<Longrightarrow> cmp a b = 0"
proof -
  assume "consistent_comparator cmp" and le: "cmp a b \<le> 0" "cmp b a \<le> 0"
  then have "(cmp a b < 0) = (0 < cmp b a)" unfolding consistent_comparator_def by blast
  with le show ?thesis by linarith
qed

lemma sorted_asc:
  "consistent_comparator cmp \<Longrightarrow>
   sorted_wrt (\<lambda>a b. compareUsers cmp ''asc'' a b \<le> 0) (array_sort (compareUsers cmp ''asc'') xs)"
proof (rule sorted_array_sort)
  assume cc: "consistent_comparator cmp"
  show "compareUsers cmp ''asc'' a b \<le> 0 \<or> compareUsers cmp ''asc'' b a \<le> 0" for a b
    unfolding compareUsers_asc using cc by (rule consistent_total)
  show "compareUsers cmp ''asc'' a b \<le> 0 \<Longrightarrow> compareUsers cmp ''asc'' b d \<le> 0 \<Longrightarrow>
      compareUsers cmp ''asc'' a d \<le> 0" for a b d
    unfolding compareUsers_asc using cc by (rule consistent_trans)
qed

lemma sorted_desc:
  "consistent_comparator cmp \<Longrightarrow>
   sorted_wrt (\<lambda>a b. compareUsers cmp ''desc'' a b \<le> 0) (array_sort (compareUsers cmp ''desc'') xs)"
proof (rule sorted_array_sort)
  assume cc: "consistent_comparator cmp"
  show "compareUsers cmp ''desc'' a b \<le> 0 \<or> compareUsers cmp ''desc'' b a \<le> 0" for a b
    unfolding compareUsers_desc using cc by (rule consistent_total)
  show "compareUsers cmp ''desc'' a b \<le> 0 \<Longrightarrow> compareUsers cmp ''desc'' b d \<le> 0 \<Longrightarrow>
      compareUsers cmp ''desc'' a d \<le> 0" for a b d
    unfolding compareUsers_desc using cc consistent_trans[of cmp] by blast
qed

lemma consistent_tie_sym:
  "consistent_comparator cmp \<Longrightarrow> cmp a b = 0 \<Longrightarrow> cmp b a = 0"
proof -
  assume "consistent_comparator cmp" and z: "cmp a b = 0"
  then have "(cmp a b < 0) = (0 < cmp b a)" "(cmp b a < 0) = (0 < cmp a b)"
    unfolding consistent_comparator_def by blast+
  with z show ?thesis by linarith
qed

lemma consistent_refl: "consistent_comparator cmp \<Longrightarrow> cmp a a = 0"
  unfolding consistent_comparator_def by blast

text \<open>Without ties the records are distinct and the comparator tells every two apart.\<close>

lemma no_ties_distinct:
  "consistent_comparator cmp \<Longrightarrow> no_ties cmp us \<Longrightarrow> distinct us"
proof (induction us)
  case Nil
  show ?case by simp
next
  case (Cons u us)
  have "compareUsers cmp ''asc'' u u = 0"
    unfolding compareUsers_asc using Cons.prems(1) by (rule consistent_refl)
  then have "u \<notin> set us" using Cons.prems(2) by (auto simp: list_all_iff)
  then show ?case using Cons by simp
qed

lemma no_ties_apart:
  "consistent_comparator cmp \<Longrightarrow> no_ties cmp us \<Longrightarrow> a \<in> set us \<Longrightarrow> b \<in> set us \<Longrightarrow>
   cmp (toLowerCase (name a)) (toLowerCase (name b)) = 0 \<Longrightarrow> a = b"
proof (induction us)
  case Nil
  then show ?case by simp
next
  case (Cons u us)
  have head: "\<And>v. v \<in> set us \<Longrightarrow> cmp (toLowerCase (name u)) (toLowerCase (name v)) \<noteq> 0"
    using Cons.prems(2) by (auto simp: list_all_iff compareUsers_asc)
  have tail: "no_ties cmp us" using Cons.prems(2) by simp
  show ?case
  proof (cases "a = u")
    case True
    show ?thesis
    proof (cases "b = u")
      case True
      with \<open>a = u\<close> show ?thesis by simp
    next
      case False
      then have "b \<in> set us" using Cons.prems(4) by simp
      then show ?thesis using head[of b] Cons.prems(5) True by simp
    qed
  next
    case False
    then have a: "a \<in> set us" using Cons.prems(3) by simp
    show ?thesis
    proof (cases "b = u")
      case True
      have "cmp (toLowerCase (name u)) (toLowerCase (name a)) = 0"
        using consistent_tie_sym[OF Cons.prems(1)] Cons.prems(5) True by blast
      then show ?thesis using head[OF a] by simp
    next
      case False
      then have "b \<in> set us" using Cons.prems(4) by simp
      then show ?thesis using Cons.IH[OF Cons.prems(1) tail a _ Cons.prems(5)] by simp
    qed
  qed
qed

lemma no_ties_filter: "no_ties cmp us \<Longrightarrow> no_ties cmp (filter P us)"
  by (induction us) (auto simp: list_all_iff)

lemma desc_sort_is_rev_asc_sort:
  assumes cc: "consistent_comparator cmp"
    and nt: "no_ties cmp F"
    and G: "set G = set F" "distinct G"
  shows "array_sort (compareUsers cmp ''desc'') G = rev (array_sort (compareUsers cmp ''asc'') F)"
proof (rule sorted_wrt_unique[where R = "\<lambda>a b. compareUsers cmp ''desc'' a b \<le> 0"])
  have dF: "distinct F" using cc nt by (rule no_ties_distinct)
  show "sorted_wrt (\<lambda>a b. compareUsers cmp ''desc'' a b \<le> 0) (array_sort (compareUsers cmp ''desc'') G)"
    using cc by (rule sorted_desc)
  have "sorted_wrt (\<lambda>a b. compareUsers cmp ''asc'' a b \<le> 0) (array_sort (compareUsers cmp ''asc'') F)"
    using cc by (rule sorted_asc)
  then show "sorted_wrt (\<lambda>a b. compareUsers cmp ''desc'' a b \<le> 0)
      (rev (array_sort (compareUsers cmp ''asc'') F))"
    by (simp add: sorted_wrt_rev compareUsers_asc compareUsers_desc)
  show "distinct (array_sort (compareUsers cmp ''desc'') G)"
    using G by (simp add: distinct_array_sort)
  show "distinct (rev (array_sort (compareUsers cmp ''asc'') F))"
    using dF by (simp add: distinct_array_sort)
  show "set (array_sort (compareUsers cmp ''desc'') G) =
      set (rev (array_sort (compareUsers cmp ''asc'') F))"
    using G by (simp add: set_array_sort)
  fix a b
  assume "a \<in> set (array_sort (compareUsers cmp ''desc'') G)"
    and "b \<in> set (array_sort (compareUsers cmp ''desc'') G)"
    and le: "compareUsers cmp ''desc'' a b \<le> 0" "compareUsers cmp ''desc'' b a \<le> 0"
  then have ab: "a \<in> set F" "b \<in> set F" using G by (simp_all add: set_array_sort)
  have "cmp (toLowerCase (name a)) (toLowerCase (name b)) = 0"
    using le unfolding compareUsers_desc by (intro consistent_both_zero[OF cc])
  then show "a = b" using cc nt ab by (intro no_ties_apart)
qed

section \<open>Ties keep their order\<close>

lemma filter_insert_by_other: "\<not> P x \<Longrightarrow> filter P (insert_by c x ys) = filter P ys"
  by (induction ys) auto

lemma filter_insert_by_first:
  "P x \<Longrightarrow> (\<And>y. y \<in> set ys \<Longrightarrow> P y \<Longrightarrow> c x y \<le> 0) \<Longrightarrow>
   filter P (insert_by c x ys) = x # filter P ys"
proof (induction ys)
  case Nil
  then show ?case by simp
next
  case (Cons y ys)
  show ?case
  proof (cases "c x y \<le> 0")
    case True
    then show ?thesis using Cons.prems(1) by simp
  next
    case False
    then have "\<not> P y" using Cons.prems(2)[of y] by auto
    moreover have "filter P (insert_by c x ys) = x # filter P ys"
      using Cons.prems by (intro Cons.IH) auto
    ultimately show ?thesis using False by simp
  qed
qed

text \<open>The sort is stable: records that all tie with each other keep their order.\<close>

lemma array_sort_stable:
  assumes "\<And>x y. P x \<Longrightarrow> P y \<Longrightarrow> c x y \<le> 0"
  shows "filter P (array_sort c xs) = filter P xs"
proof (induction xs)
  case Nil
  show ?case by (simp add: array_sort_def)
next
  case (Cons x xs)
  have step: "array_sort c (x # xs) = insert_by c x (array_sort c xs)"
    by (simp add: array_sort_def)
  show ?case
  proof (cases "P x")
    case True
    then have "filter P (insert_by c x (array_sort c xs)) = x # filter P (array_sort c xs)"
      using assms by (intro filter_insert_by_first) auto
    then show ?thesis using True Cons.IH step by simp
  next
    case False
    then show ?thesis using Cons.IH step by (simp add: filter_insert_by_other)
  qed
qed

lemma filter_single: "distinct xs \<Longrightarrow> v \<in> set xs \<Longrightarrow> filter (\<lambda>x. x = v) xs = [v]"
  by (induction xs) (auto simp: filter_empty_conv)

text \<open>Where two records tie, two different records tie of which one stands before the other.\<close>

lemma tie_pair:
  "distinct us \<Longrightarrow> \<not> no_ties cmp us \<Longrightarrow>
   \<exists>a b. a \<noteq> b \<and> compareUsers cmp ''asc'' a b = 0 \<and> filter (\<lambda>x. x = a \<or> x = b) us = [a, b]"
proof (induction us)
  case Nil
  then show ?case by simp
next
  case (Cons u us)
  show ?case
  proof (cases "no_ties cmp us")
    case False
    then obtain a b where ab: "a \<noteq> b" "compareUsers cmp ''asc'' a b = 0"
      "filter (\<lambda>x. x = a \<or> x = b) us = [a, b]"
      using Cons by auto
    have "a \<in> set (filter (\<lambda>x. x = a \<or> x = b) us)" "b \<in> set (filter (\<lambda>x. x = a \<or> x = b) us)"
      unfolding ab(3) by simp_all
    then have "a \<in> set us" "b \<in> set us" by simp_all
    then have "u \<noteq> a" "u \<noteq> b" using Cons.prems(1) by auto
    then have "filter (\<lambda>x. x = a \<or> x = b) (u # us) = [a, b]" using ab(3) by simp
    with ab(1,2) show ?thesis by blast
  next
    case True
    then obtain v where v: "v \<in> set us" "compareUsers cmp ''asc'' u v = 0"
      using Cons.prems(2) by (auto simp: list_all_iff)
    have uv: "u \<noteq> v" and u: "u \<notin> set us" and d: "distinct us"
      using Cons.prems(1) v(1) by auto
    have "filter (\<lambda>x. x = u \<or> x = v) us = filter (\<lambda>x. x = v) us"
      using u by (intro filter_cong) auto
    then have "filter (\<lambda>x. x = u \<or> x = v) (u # us) = [u, v]"
      using filter_single[OF d v(1)] by simp
    with uv v(2) show ?thesis by blast
  qed
qed

lemma tie_blocks_reverse:
  assumes cc: "consistent_comparator cmp" and d: "distinct fs" and tie: "\<not> no_ties cmp fs"
  shows "array_sort (compareUsers cmp ''desc'') fs \<noteq> rev (array_sort (compareUsers cmp ''asc'') fs)"
proof
  assume eq: "array_sort (compareUsers cmp ''desc'') fs =
      rev (array_sort (compareUsers cmp ''asc'') fs)"
  obtain a b where ab: "a \<noteq> b" and z: "compareUsers cmp ''asc'' a b = 0"
    and f: "filter (\<lambda>x. x = a \<or> x = b) fs = [a, b]"
    using tie_pair[OF d tie] by blast
  let ?P = "\<lambda>x. x = a \<or> x = b"
  have z1: "cmp (toLowerCase (name a)) (toLowerCase (name b)) = 0"
    using z by (simp add: compareUsers_asc)
  then have z2: "cmp (toLowerCase (name b)) (toLowerCase (name a)) = 0"
    by (rule consistent_tie_sym[OF cc])
  have r: "\<And>k. cmp k k = 0" using cc by (rule consistent_refl)
  have asc: "filter ?P (array_sort (compareUsers cmp ''asc'') fs) = [a, b]"
    unfolding f[symmetric]
    by (rule array_sort_stable) (auto simp: compareUsers_asc z1 z2 r)
  have desc: "filter ?P (array_sort (compareUsers cmp ''desc'') fs) = [a, b]"
    unfolding f[symmetric]
    by (rule array_sort_stable) (auto simp: compareUsers_desc z1 z2 r)
  have "filter ?P (rev (array_sort (compareUsers cmp ''asc'') fs)) = [b, a]"
    using asc by (simp add: rev_filter[symmetric])
  with desc eq ab show False by simp
qed

text \<open>
  Two records whose names differ only in case have the same sort key, so every collation
  that compares a key as equal to itself leaves them in their order in both directions.
\<close>

lemma equal_keys_keep_order:
  assumes "localeCompare ''bob'' ''bob'' = 0"
  shows "sortedUsers localeCompare ''asc'' bob_and_bob = bob_and_bob"
    and "sortedUsers localeCompare ''desc'' bob_and_bob = bob_and_bob"
proof -
  have k: "toLowerCase ''Bob'' = ''bob''" "toLowerCase ''bob'' = ''bob''" by code_simp+
  show "sortedUsers localeCompare ''asc'' bob_and_bob = bob_and_bob"
    using assms
    by (simp add: sortedUsers_def array_sort_def bob_and_bob_def compareUsers_asc mk_user_def k)
  show "sortedUsers localeCompare ''desc'' bob_and_bob = bob_and_bob"
    using assms
    by (simp add: sortedUsers_def array_sort_def bob_and_bob_def compareUsers_desc mk_user_def k)
qed

text \<open>
  C7, as stated, fails: the names \<open>Bob\<close> and \<open>bob\<close> are distinct, the comparator sees the
  key \<open>bob\<close> twice, and the descending result is the ascending result, not its reverse.
\<close>

theorem case_variant_names_counterexample:
  "distinct (map name bob_and_bob) \<and>
   sortedUsers codeUnitCompare ''desc'' (filteredUsers bob_and_bob [] []) \<noteq>
     rev (sortedUsers codeUnitCompare ''asc'' (filteredUsers bob_and_bob [] []))"
proof -
  have d: "distinct (map name bob_and_bob)" by code_simp
  have a: "map user_id (sortedUsers codeUnitCompare ''desc'' (filteredUsers bob_and_bob [] [])) = [1, 2]"
    by code_simp
  have b: "map user_id (rev (sortedUsers codeUnitCompare ''asc'' (filteredUsers bob_and_bob [] []))) = [2, 1]"
    by code_simp
  have "sortedUsers codeUnitCompare ''desc'' (filteredUsers bob_and_bob [] []) \<noteq>
     rev (sortedUsers codeUnitCompare ''asc'' (filteredUsers bob_and_bob [] []))"
  proof
    assume "sortedUsers codeUnitCompare ''desc'' (filteredUsers bob_and_bob [] []) =
     rev (sortedUsers codeUnitCompare ''asc'' (filteredUsers bob_and_bob [] []))"
    then have "[1, 2] = [2, 1 :: int]" using a b by simp
    then show False by simp
  qed
  with d show ?thesis by blast
qed

text \<open>
  C7, amended. With a consistent collation, when no two records of the filtered sequence
  tie, that is, the comparator of the component gives a result other than 0 for the
  lower-cased names of every two of them, the filtered sequence sorted in descending order is
  the reverse of the filtered sequence sorted in ascending order, and sorting the ascending
  array again in place, in descending order, gives the same. This is so in particular when
  no two records of the collection tie. When two different records of the filtered sequence
  tie, the descending result is not the reverse of the ascending one.
\<close>

theorem descending_reverses_ascending:
  "consistent_comparator localeCompare \<longrightarrow>
     (let fs = filteredUsers us searchText filterText;
          asc = sortedUsers localeCompare ''asc'' fs;
          desc = sortedUsers localeCompare ''desc'' fs
      in (no_ties localeCompare us \<longrightarrow> no_ties localeCompare fs) \<and>
         (no_ties localeCompare fs \<longrightarrow>
            desc = rev asc \<and> sortedUsers localeCompare ''desc'' asc = rev asc) \<and>
         (distinct fs \<and> desc = rev asc \<longrightarrow> no_ties localeCompare fs))"
proof
  assume cc: "consistent_comparator localeCompare"
  let ?fs = "filteredUsers us searchText filterText"
  let ?asc = "sortedUsers localeCompare ''asc'' ?fs"
  let ?desc = "sortedUsers localeCompare ''desc'' ?fs"
  have sub: "no_ties localeCompare us \<longrightarrow> no_ties localeCompare ?fs"
    unfolding filteredUsers_def by (simp add: no_ties_filter)
  have fwd: "no_ties localeCompare ?fs \<longrightarrow>
      ?desc = rev ?asc \<and> sortedUsers localeCompare ''desc'' ?asc = rev ?asc"
  proof
    assume nt: "no_ties localeCompare ?fs"
    have d: "distinct ?fs" using cc nt by (rule no_ties_distinct)
    have fresh: "?desc = rev ?asc"
      unfolding sortedUsers_def by (rule desc_sort_is_rev_asc_sort[OF cc nt refl d])
    have sa: "set (array_sort (compareUsers localeCompare ''asc'') ?fs) = set ?fs"
      by (rule set_array_sort)
    have da: "distinct (array_sort (compareUsers localeCompare ''asc'') ?fs)"
      using d by (simp add: distinct_array_sort)
    have again: "sortedUsers localeCompare ''desc'' ?asc = rev ?asc"
      unfolding sortedUsers_def by (rule desc_sort_is_rev_asc_sort[OF cc nt sa da])
    from fresh again
    show "?desc = rev ?asc \<and> sortedUsers localeCompare ''desc'' ?asc = rev ?asc" ..
  qed
  have bwd: "distinct ?fs \<and> ?desc = rev ?asc \<longrightarrow> no_ties localeCompare ?fs"
    unfolding sortedUsers_def using tie_blocks_reverse[OF cc, of ?fs] by blast
  from sub fwd bwd
  show "let fs = ?fs; asc = sortedUsers localeCompare ''asc'' fs;
          desc = sortedUsers localeCompare ''desc'' fs
      in (no_ties localeCompare us \<longrightarrow> no_ties localeCompare fs) \<and>
         (no_ties localeCompare fs \<longrightarrow>
            desc = rev asc \<and> sortedUsers localeCompare ''desc'' asc = rev asc) \<and>
         (distinct fs \<and> desc = rev asc \<longrightarrow> no_ties localeCompare fs)"
    by (simp only: Let_def)
qed

theorem descending_reverses_ascending_witness:
  "consistent_comparator collate_ignoring_controls \<and>
   no_ties collate_ignoring_controls ada_bob_cy \<and>
   no_ties collate_ignoring_controls (filteredUsers ada_bob_cy [] []) \<and>
   distinct (filteredUsers ada_bob_cy [] []) \<and>
   map name (sortedUsers collate_ignoring_controls ''asc'' (filteredUsers ada_bob_cy [] [])) =
     [''Ada'', ''bob'', ''Cy''] \<and>
   sortedUsers collate_ignoring_controls ''desc'' (filteredUsers ada_bob_cy [] []) =
     rev (sortedUsers collate_ignoring_controls ''asc'' (filteredUsers ada_bob_cy [] []))"
proof -
  have nt: "no_ties collate_ignoring_controls ada_bob_cy" by code_simp
  have d: "distinct (filteredUsers ada_bob_cy [] [])" by code_simp
  have asc: "map name (sortedUsers collate_ignoring_controls ''asc''
      (filteredUsers ada_bob_cy [] [])) = [''Ada'', ''bob'', ''Cy'']" by code_simp
  note inst = descending_reverses_ascending[of collate_ignoring_controls ada_bob_cy "[]" "[]",
      THEN mp, OF consistent_collate_ignoring_controls, unfolded Let_def]
  from inst nt have ntf: "no_ties collate_ignoring_controls (filteredUsers ada_bob_cy [] [])"
    by (elim conjE) (rule mp)
  from inst ntf
  have r: "sortedUsers collate_ignoring_controls ''desc'' (filteredUsers ada_bob_cy [] []) =
     rev (sortedUsers collate_ignoring_controls ''asc'' (filteredUsers ada_bob_cy [] []))"
    by (elim conjE) (erule mp[THEN conjunct1])
  from consistent_collate_ignoring_controls nt ntf d asc r show ?thesis by (intro conjI)
qed

end
